theory Spec2Isabelle
  imports Main "HOL-Library.Monad_Syntax" "HOL-Library.AList"
begin

section \<open>Conventions of the embedding\<close>

text \<open>
  The Python sources \<^verbatim>\<open>constants.py\<close>, \<^verbatim>\<open>piece.py\<close>, \<^verbatim>\<open>cell.py\<close>, \<^verbatim>\<open>move.py\<close>,
  \<^verbatim>\<open>turn.py\<close> and \<^verbatim>\<open>gamestate.py\<close> are embedded function by function.

  \<^item> A method that may raise returns an \<open>option\<close>: \<open>None\<close> stands for a raised Python
    exception (IndexError, KeyError, AttributeError on \<^verbatim>\<open>None\<close>, ValueError), so a
    Python function that itself returns \<^verbatim>\<open>None\<close> or a value has a nested option.
  \<^item> A method that mutates \<^verbatim>\<open>self\<close> takes the object and returns the updated one.
  \<^item> Python integers are \<open>int\<close>; a location tuple \<^verbatim>\<open>(row, col)\<close> is \<open>int \<times> int\<close>.
  \<^item> A \<^verbatim>\<open>dict\<close> keeps insertion order: it is an association list, \<^verbatim>\<open>d[k] = v\<close> is
    \<open>AList.update\<close>, \<^verbatim>\<open>d[k]\<close> is \<open>map_of\<close>, iteration runs over \<open>map fst\<close>.
  \<^item> The board \<^verbatim>\<open>status\<close> is the list of rows of Cell objects. A Cell object is created
    once by \<^verbatim>\<open>new_game\<close> and never replaced, so a reference to a Cell object (the
    \<^verbatim>\<open>capturing\<close> attribute of a Move) is the position of that object in the grid.
\<close>

section \<open>constants.py\<close>

datatype color = BLACK | RED

definition BLACK_DIRECTIONS :: "(int \<times> int) list" where
  "BLACK_DIRECTIONS = [(1, 1), (1, -1)]"

definition RED_DIRECTIONS :: "(int \<times> int) list" where
  "RED_DIRECTIONS = [(-1, 1), (-1, -1)]"

definition KING_DIRECTIONS :: "(int \<times> int) list" where
  "KING_DIRECTIONS = [(1, 1), (-1, -1), (1, -1), (-1, 1)]"

definition SIZE :: int where
  "SIZE = 8"

definition NEW_TURN :: int where
  "NEW_TURN = 0"

definition VALID_PIECE_SELECTED :: int where
  "VALID_PIECE_SELECTED = 1"

definition CHECK_MULTIPLE_JUMPS :: int where
  "CHECK_MULTIPLE_JUMPS = 2"

definition MOVE_COMPLETE :: int where
  "MOVE_COMPLETE = 3"

section \<open>piece.py\<close>

record piece =
  color :: color
  piece_directions :: "(int \<times> int) list"
  is_king :: bool

definition Piece_init :: "color \<Rightarrow> (int \<times> int) list \<Rightarrow> piece" where
  "Piece_init c dirs = \<lparr>color = c, piece_directions = dirs, is_king = False\<rparr>"

definition is_enemy :: "piece \<Rightarrow> color \<Rightarrow> bool" where
  "is_enemy p player_color \<longleftrightarrow> color p \<noteq> player_color"

definition make_king :: "piece \<Rightarrow> piece" where
  "make_king p = p\<lparr>piece_directions := KING_DIRECTIONS, is_king := True\<rparr>"

section \<open>cell.py\<close>

record cell =
  playable :: bool
  location :: "int \<times> int"
  occupant :: "piece option"

definition is_empty :: "cell \<Rightarrow> bool" where
  "is_empty c \<longleftrightarrow> occupant c = None"

definition contains_piece :: "cell \<Rightarrow> color \<Rightarrow> bool" where
  "contains_piece c col =
     (if is_empty c then False
      else (case occupant c of None \<Rightarrow> False | Some p \<Rightarrow> color p = col))"

section \<open>move.py\<close>

type_synonym cell_ref = "nat \<times> nat"

record move =
  current_loc :: "int \<times> int"
  new_loc :: "int \<times> int"
  capturing :: "cell_ref option"

definition is_capture :: "move \<Rightarrow> bool" where
  "is_capture m \<longleftrightarrow> capturing m \<noteq> None"

section \<open>The board: indexing the grid of cells\<close>

type_synonym board = "cell list list"

text \<open>Python list indexing: a negative index counts from the end, anything outside
  \<open>-n \<le> i < n\<close> raises IndexError.\<close>

definition norm_index :: "nat \<Rightarrow> int \<Rightarrow> nat option" where
  "norm_index n i =
     (if 0 \<le> i \<and> i < int n then Some (nat i)
      else if - int n \<le> i \<and> i < 0 then Some (nat (int n + i))
      else None)"

definition cell_pos :: "board \<Rightarrow> int \<times> int \<Rightarrow> cell_ref option" where
  "cell_pos st loc = do {
     r \<leftarrow> norm_index (length st) (fst loc);
     c \<leftarrow> norm_index (length (st ! r)) (snd loc);
     Some (r, c)
   }"

definition cell_at :: "board \<Rightarrow> cell_ref \<Rightarrow> cell" where
  "cell_at st p = st ! fst p ! snd p"

text \<open>\<^verbatim>\<open>self.status[loc[0]][loc[1]]\<close>\<close>

definition get_cell :: "board \<Rightarrow> int \<times> int \<Rightarrow> cell option" where
  "get_cell st loc = map_option (cell_at st) (cell_pos st loc)"

text \<open>Assignment to the \<^verbatim>\<open>occupant\<close> attribute of the Cell object at a grid position. A
  reference to a Cell object that is not part of the grid leaves the grid as it is.\<close>

definition set_occupant :: "board \<Rightarrow> cell_ref \<Rightarrow> piece option \<Rightarrow> board" where
  "set_occupant st p occ =
     st[fst p := (st ! fst p)[snd p := (cell_at st p)\<lparr>occupant := occ\<rparr>]]"

section \<open>turn.py\<close>

type_synonym moves_dict = "((int \<times> int) \<times> move list) list"

record turn =
  player :: color
  step :: int
  valid_moves :: moves_dict
  capture_required :: bool
  possible_targets :: "move list"
  final_move :: "move option"

text \<open>The loop of \<^verbatim>\<open>is_capture_required\<close> over the keys of \<^verbatim>\<open>valid_moves\<close>;
  \<^verbatim>\<open>self.valid_moves[piece][0]\<close> raises on a missing key and on an empty list.\<close>

fun capture_required_loop :: "moves_dict \<Rightarrow> (int \<times> int) list \<Rightarrow> bool option" where
  "capture_required_loop vm [] = Some False"
| "capture_required_loop vm (k # ks) =
     (case map_of vm k of
        None \<Rightarrow> None
      | Some [] \<Rightarrow> None
      | Some (m # ms) \<Rightarrow> if is_capture m then Some True else capture_required_loop vm ks)"

definition is_capture_required :: "turn \<Rightarrow> bool option" where
  "is_capture_required t = capture_required_loop (valid_moves t) (map fst (valid_moves t))"

definition Turn_init :: "color \<Rightarrow> moves_dict \<Rightarrow> turn option" where
  "Turn_init p vm = do {
     let t = \<lparr>player = p, step = NEW_TURN, valid_moves = vm, capture_required = False,
              possible_targets = [], final_move = None\<rparr>;
     cr \<leftarrow> is_capture_required t;
     Some (t\<lparr>capture_required := cr, possible_targets := [], final_move := None\<rparr>)
   }"

definition is_turn_complete :: "turn \<Rightarrow> bool" where
  "is_turn_complete t \<longleftrightarrow> step t = MOVE_COMPLETE"

definition complete_turn :: "turn \<Rightarrow> turn" where
  "complete_turn t = t\<lparr>step := MOVE_COMPLETE\<rparr>"

definition find_clicked_target :: "turn \<Rightarrow> int \<times> int \<Rightarrow> move option" where
  "find_clicked_target t cell_clicked =
     find (\<lambda>target. cell_clicked = new_loc target) (possible_targets t)"

definition playable_cell_selected :: "turn \<Rightarrow> int \<times> int \<Rightarrow> bool" where
  "playable_cell_selected t cell_clicked =
     (if step t = NEW_TURN then cell_clicked \<in> fst ` set (valid_moves t)
      else if \<not> is_turn_complete t then find_clicked_target t cell_clicked \<noteq> None
      else False)"

text \<open>\<^verbatim>\<open>not icr() or icr() and valid_moves[cell][0].is_capture()\<close>, evaluated left to
  right with Python's short circuit.\<close>

definition allowed_start_piece :: "turn \<Rightarrow> int \<times> int \<Rightarrow> bool option" where
  "allowed_start_piece t cell_clicked = do {
     r1 \<leftarrow> is_capture_required t;
     if \<not> r1 then Some True
     else do {
       r2 \<leftarrow> is_capture_required t;
       if \<not> r2 then Some False
       else (case map_of (valid_moves t) cell_clicked of
               None \<Rightarrow> None
             | Some [] \<Rightarrow> None
             | Some (m # ms) \<Rightarrow> Some (is_capture m))
     }
   }"

definition finish_initial_selection :: "turn \<Rightarrow> int \<times> int \<Rightarrow> turn option" where
  "finish_initial_selection t start_loc = do {
     targets \<leftarrow> map_of (valid_moves t) start_loc;
     Some (t\<lparr>step := step t + 1, possible_targets := targets\<rparr>)
   }"

definition finish_piece_move :: "turn \<Rightarrow> move \<Rightarrow> turn" where
  "finish_piece_move t m =
     t\<lparr>step := (if capture_required t then CHECK_MULTIPLE_JUMPS else MOVE_COMPLETE),
       final_move := Some m\<rparr>"

text \<open>\<^verbatim>\<open>is_valid_turn\<close> returns its boolean together with the Turn as it has left it.\<close>

definition is_valid_turn :: "turn \<Rightarrow> int \<times> int \<Rightarrow> (bool \<times> turn) option" where
  "is_valid_turn t cell_clicked =
     (if \<not> playable_cell_selected t cell_clicked then Some (False, t)
      else do {
        start_ok \<leftarrow> (if step t = NEW_TURN then allowed_start_piece t cell_clicked
                     else Some False);
        if start_ok then do {
          t' \<leftarrow> finish_initial_selection t cell_clicked;
          Some (True, t')
        }
        else (case find_clicked_target t cell_clicked of
                None \<Rightarrow> Some (False, t)
              | Some target \<Rightarrow>
                  if is_capture target then Some (True, finish_piece_move t target)
                  else do {
                    req \<leftarrow> is_capture_required t;
                    if \<not> req then Some (True, finish_piece_move t target)
                    else Some (False, t)
                  })
      })"

text \<open>The \<^verbatim>\<open>for\<close> loop of \<^verbatim>\<open>choose_ai_cell\<close>: the first key whose list starts with a
  capture, or Python's \<^verbatim>\<open>None\<close> when the loop ends without a \<^verbatim>\<open>break\<close>.\<close>

fun first_capture_key :: "moves_dict \<Rightarrow> (int \<times> int) list \<Rightarrow> (int \<times> int) option option" where
  "first_capture_key vm [] = Some None"
| "first_capture_key vm (k # ks) =
     (case map_of vm k of
        None \<Rightarrow> None
      | Some [] \<Rightarrow> None
      | Some (m # ms) \<Rightarrow> if is_capture m then Some (Some k) else first_capture_key vm ks)"

text \<open>\<^verbatim>\<open>choose_ai_cell\<close>; the argument \<open>rnd\<close> is the value drawn by
  \<^verbatim>\<open>random.randint(0, len(self.valid_moves) - 1)\<close>, which raises ValueError on an empty
  range and otherwise draws a value inside it.\<close>

definition choose_ai_cell :: "turn \<Rightarrow> int \<Rightarrow> ((int \<times> int) option \<times> turn) option" where
  "choose_ai_cell t rnd =
     (if step t = NEW_TURN then do {
        loc \<leftarrow> (if capture_required t
                then first_capture_key (valid_moves t) (map fst (valid_moves t))
                else if 0 \<le> rnd \<and> rnd \<le> int (length (valid_moves t)) - 1
                then Some (Some (map fst (valid_moves t) ! nat rnd))
                else None);
        start_loc \<leftarrow> loc;
        t' \<leftarrow> finish_initial_selection t start_loc;
        Some (Some start_loc, t')
      }
      else if step t = VALID_PIECE_SELECTED \<or> step t = CHECK_MULTIPLE_JUMPS then
        (case possible_targets t of
           [] \<Rightarrow> None
         | m # ms \<Rightarrow> Some (Some (new_loc m), finish_piece_move t m))
      else Some (None, t))"

section \<open>gamestate.py\<close>

definition BLACK_KING_ROW :: int where
  "BLACK_KING_ROW = 7"

definition RED_KING_ROW :: int where
  "RED_KING_ROW = 0"

record game =
  status :: board
  black_score :: int
  red_score :: int
  winner :: "color option"
  current_turn :: "turn option"
  black_possible_moves :: moves_dict
  red_possible_moves :: moves_dict

definition is_dark :: "int \<Rightarrow> int \<Rightarrow> bool" where
  "is_dark row col \<longleftrightarrow> row mod 2 = 0 \<and> col mod 2 = 0 \<or> row mod 2 = 1 \<and> col mod 2 = 1"

definition get_start_state :: "int \<Rightarrow> int \<Rightarrow> piece option" where
  "get_start_state row col =
     (if is_dark row col \<or> row > 2 \<and> row < 5 then None
      else if row \<ge> 0 \<and> row \<le> 2 then Some (Piece_init BLACK BLACK_DIRECTIONS)
      else Some (Piece_init RED RED_DIRECTIONS))"

definition is_valid_cell :: "int \<Rightarrow> int \<Rightarrow> bool" where
  "is_valid_cell row col \<longleftrightarrow> row \<ge> 0 \<and> row < SIZE \<and> col \<ge> 0 \<and> col < SIZE"

definition get_next_cell_in_direction :: "int \<times> int \<Rightarrow> int \<times> int \<Rightarrow> int \<times> int" where
  "get_next_cell_in_direction start direction =
     (fst start + fst direction, snd start + snd direction)"

text \<open>\<^verbatim>\<open>create_move\<close>: the outer option is an exception, the inner one is the Python
  result (\<^verbatim>\<open>None\<close> when no move exists in the direction). The captured Cell object
  \<^verbatim>\<open>check_cell\<close> is referred to by its position in the grid.\<close>

definition create_move ::
  "board \<Rightarrow> int \<times> int \<Rightarrow> int \<times> int \<Rightarrow> int \<times> int \<Rightarrow> color \<Rightarrow> move option option" where
  "create_move st start next_cell direction piece_color =
     (if \<not> is_valid_cell (fst next_cell) (snd next_cell) then Some None
      else do {
        check_pos \<leftarrow> cell_pos st next_cell;
        let check_cell = cell_at st check_pos;
        if is_empty check_cell then
          Some (Some \<lparr>current_loc = start, new_loc = next_cell, capturing = None\<rparr>)
        else do {
          occ \<leftarrow> occupant check_cell;
          if is_enemy occ piece_color then do {
            let end_loc = get_next_cell_in_direction next_cell direction;
            if is_valid_cell (fst end_loc) (snd end_loc) then do {
              end_cell \<leftarrow> get_cell st end_loc;
              if is_empty end_cell then
                Some (Some \<lparr>current_loc = start, new_loc = end_loc,
                            capturing = Some check_pos\<rparr>)
              else Some None
            }
            else Some None
          }
          else Some None
        }
      })"

text \<open>The loop of \<^verbatim>\<open>get_moves_for_piece\<close> over the directions of the piece:
  \<^verbatim>\<open>moves.insert(0, move)\<close> for a capture, \<^verbatim>\<open>moves.append(move)\<close> otherwise.\<close>

fun moves_loop ::
  "board \<Rightarrow> cell \<Rightarrow> color \<Rightarrow> (int \<times> int) list \<Rightarrow> move list \<Rightarrow> move list option" where
  "moves_loop st c piece_color [] moves = Some moves"
| "moves_loop st c piece_color (direction # ds) moves = do {
     mv \<leftarrow> create_move st (location c)
             (get_next_cell_in_direction (location c) direction) direction piece_color;
     moves_loop st c piece_color ds
       (case mv of
          None \<Rightarrow> moves
        | Some m \<Rightarrow> if is_capture m then m # moves else moves @ [m])
   }"

definition get_moves_for_piece :: "board \<Rightarrow> int \<times> int \<Rightarrow> color \<Rightarrow> move list option" where
  "get_moves_for_piece st cell_loc piece_color = do {
     c \<leftarrow> get_cell st cell_loc;
     occ \<leftarrow> occupant c;
     moves_loop st c piece_color (piece_directions occ) []
   }"

definition all_cells_containing_color :: "board \<Rightarrow> color \<Rightarrow> (int \<times> int) list" where
  "all_cells_containing_color st piece_color =
     concat (map (\<lambda>row.
        map (\<lambda>col. (int row, int col))
          (filter (\<lambda>col. contains_piece (cell_at st (row, col)) piece_color)
             [0..<length (st ! row)]))
       [0..<length st])"

text \<open>The loop of \<^verbatim>\<open>valid_moves_for_color\<close> over the locations of the pieces.\<close>

fun valid_moves_loop ::
  "board \<Rightarrow> color \<Rightarrow> (int \<times> int) list \<Rightarrow> moves_dict \<Rightarrow> moves_dict option" where
  "valid_moves_loop st piece_color [] possible_moves = Some possible_moves"
| "valid_moves_loop st piece_color (loc # locs) possible_moves = do {
     moves \<leftarrow> get_moves_for_piece st loc piece_color;
     valid_moves_loop st piece_color locs
       (if length moves > 0 then AList.update loc moves possible_moves else possible_moves)
   }"

definition valid_moves_for_color :: "board \<Rightarrow> color \<Rightarrow> moves_dict option" where
  "valid_moves_for_color st piece_color =
     valid_moves_loop st piece_color (all_cells_containing_color st piece_color) []"

definition check_game_over :: "game \<Rightarrow> game" where
  "check_game_over g =
     (if length (black_possible_moves g) = 0 then g\<lparr>winner := Some RED\<rparr>
      else if length (red_possible_moves g) = 0 then g\<lparr>winner := Some BLACK\<rparr>
      else g)"

definition populate_valid_moves :: "game \<Rightarrow> game option" where
  "populate_valid_moves g = do {
     b \<leftarrow> valid_moves_for_color (status g) BLACK;
     let g1 = g\<lparr>black_possible_moves := b\<rparr>;
     r \<leftarrow> valid_moves_for_color (status g1) RED;
     let g2 = g1\<lparr>red_possible_moves := r\<rparr>;
     Some (check_game_over g2)
   }"

text \<open>The nested loops of \<^verbatim>\<open>new_game\<close> that build \<^verbatim>\<open>self.status\<close>.\<close>

definition start_status :: board where
  "start_status =
     map (\<lambda>row. map (\<lambda>col.
            \<lparr>playable = is_dark row col, location = (row, col),
             occupant = get_start_state row col\<rparr>) [0..SIZE - 1]) [0..SIZE - 1]"

definition new_game :: "game \<Rightarrow> game option" where
  "new_game g = do {
     g1 \<leftarrow> populate_valid_moves (g\<lparr>status := start_status\<rparr>);
     t \<leftarrow> Turn_init BLACK (black_possible_moves g1);
     Some (g1\<lparr>current_turn := Some t\<rparr>)
   }"

text \<open>The object before \<^verbatim>\<open>__init__\<close> has assigned any attribute; \<^verbatim>\<open>new_game\<close> assigns
  \<^verbatim>\<open>status\<close>, both move dictionaries and \<^verbatim>\<open>current_turn\<close>, and \<^verbatim>\<open>__init__\<close> the rest
  (the user interface it then opens is outside the engine).\<close>

definition blank_game :: game where
  "blank_game = \<lparr>status = [], black_score = 0, red_score = 0, winner = None,
                 current_turn = None, black_possible_moves = [], red_possible_moves = []\<rparr>"

definition Game_init :: "game option" where
  "Game_init = do {
     g \<leftarrow> new_game blank_game;
     Some (g\<lparr>black_score := 0, red_score := 0, winner := None\<rparr>)
   }"

text \<open>\<^verbatim>\<open>get_additional_jump\<close> returns the list of captures together with the game, whose
  current Turn it completes when the list is empty.\<close>

definition get_additional_jump :: "game \<Rightarrow> cell \<Rightarrow> color \<Rightarrow> (move list \<times> game) option" where
  "get_additional_jump g start_cell piece_color = do {
     moves \<leftarrow> valid_moves_for_color (status g) piece_color;
     let possible_capture =
       (case map_of moves (location start_cell) of
          None \<Rightarrow> []
        | Some ms \<Rightarrow> takeWhile is_capture ms);
     if length possible_capture = 0 then do {
       t \<leftarrow> current_turn g;
       Some (possible_capture, g\<lparr>current_turn := Some (complete_turn t)\<rparr>)
     }
     else Some (possible_capture, g)
   }"

text \<open>\<^verbatim>\<open>extend_turn\<close> assigns two attributes of the current Turn object.\<close>

definition extended :: "turn \<Rightarrow> move list \<Rightarrow> turn" where
  "extended t options = t\<lparr>final_move := None, possible_targets := options\<rparr>"

definition extend_turn :: "game \<Rightarrow> move list \<Rightarrow> game option" where
  "extend_turn g options = do {
     t \<leftarrow> current_turn g;
     Some (g\<lparr>current_turn := Some (extended t options)\<rparr>)
   }"

text \<open>The call \<^verbatim>\<open>self.game_state.current_turn.is_valid_turn(location)\<close> of the click
  handler: the Turn object of the game is the one that is updated.\<close>

definition current_turn_is_valid_turn :: "game \<Rightarrow> int \<times> int \<Rightarrow> (bool \<times> game) option" where
  "current_turn_is_valid_turn g location_clicked = do {
     t \<leftarrow> current_turn g;
     (ok, t') \<leftarrow> is_valid_turn t location_clicked;
     Some (ok, g\<lparr>current_turn := Some t'\<rparr>)
   }"

definition update_state :: "game \<Rightarrow> move \<Rightarrow> game option" where
  "update_state g m = do {
     new_pos \<leftarrow> cell_pos (status g) (new_loc m);
     old_pos \<leftarrow> cell_pos (status g) (current_loc m);
     let st1 = set_occupant (status g) new_pos (occupant (cell_at (status g) old_pos));
     st2 \<leftarrow> (if fst (new_loc m) = BLACK_KING_ROW \<and> contains_piece (cell_at st1 new_pos) BLACK
               \<or> fst (new_loc m) = RED_KING_ROW \<and> contains_piece (cell_at st1 new_pos) RED
             then do {
               p \<leftarrow> occupant (cell_at st1 new_pos);
               Some (set_occupant st1 new_pos (Some (make_king p)))
             }
             else Some st1);
     let st3 = set_occupant st2 old_pos None;
     case capturing m of
       None \<Rightarrow> Some (g\<lparr>status := st3\<rparr>)
     | Some captured \<Rightarrow> do {
         t \<leftarrow> current_turn g;
         let g1 = (if player t = BLACK then g\<lparr>status := st3, black_score := black_score g + 1\<rparr>
                   else g\<lparr>status := st3, red_score := red_score g + 1\<rparr>);
         Some (g1\<lparr>status := set_occupant st3 captured None\<rparr>)
       }
   }"

section \<open>Turn objects the program can build\<close>

text \<open>A Turn object is created by the constructor and afterwards changed only by
  \<^verbatim>\<open>is_valid_turn\<close>, \<^verbatim>\<open>choose_ai_cell\<close>, \<^verbatim>\<open>complete_turn\<close> (called by
  \<^verbatim>\<open>get_additional_jump\<close>) and \<^verbatim>\<open>extend_turn\<close>, which the move handler calls only
  after it has applied a committed capturing \<^verbatim>\<open>final_move\<close>.\<close>

inductive turn_reachable :: "turn \<Rightarrow> bool" where
  created: "Turn_init p vm = Some t \<Longrightarrow> turn_reachable t"
| selected: "turn_reachable t \<Longrightarrow> is_valid_turn t loc = Some (b, t') \<Longrightarrow> turn_reachable t'"
| ai_selected: "turn_reachable t \<Longrightarrow> choose_ai_cell t rnd = Some (loc, t') \<Longrightarrow> turn_reachable t'"
| completed: "turn_reachable t \<Longrightarrow> turn_reachable (complete_turn t)"
| turn_extended: "turn_reachable t \<Longrightarrow> final_move t = Some m \<Longrightarrow> is_capture m \<Longrightarrow>
     turn_reachable (extended t options)"

definition turn_inv :: "turn \<Rightarrow> bool" where
  "turn_inv t \<longleftrightarrow>
     is_capture_required t = Some (capture_required t) \<and>
     (step t = NEW_TURN \<longrightarrow> possible_targets t = [] \<and> final_move t = None) \<and>
     (final_move t \<noteq> None \<longrightarrow> step t = CHECK_MULTIPLE_JUMPS \<or> step t = MOVE_COMPLETE)"

section \<open>Well-formed boards\<close>

text \<open>The grid \<^verbatim>\<open>new_game\<close> builds has \<^verbatim>\<open>SIZE\<close> rows of \<^verbatim>\<open>SIZE\<close> cells, and the
  \<^verbatim>\<open>location\<close> attribute of each Cell is its position in the grid; no method assigns
  \<^verbatim>\<open>status\<close>, a row or a \<^verbatim>\<open>location\<close> afterwards.\<close>

definition board_ok :: "board \<Rightarrow> bool" where
  "board_ok st \<longleftrightarrow> length st = 8 \<and> (\<forall>r < length st. length (st ! r) = 8)"

definition locations_ok :: "board \<Rightarrow> bool" where
  "locations_ok st \<longleftrightarrow>
     (\<forall>r < length st. \<forall>c < length (st ! r). location (cell_at st (r, c)) = (int r, int c))"

section \<open>Concrete inputs\<close>

definition occupant_color_at :: "cell_ref \<Rightarrow> game \<Rightarrow> color option" where
  "occupant_color_at p g = map_option color (occupant (cell_at (status g) p))"

definition playable_at :: "cell_ref \<Rightarrow> game \<Rightarrow> bool" where
  "playable_at p g = playable (cell_at (status g) p)"

text \<open>A grid built as \<^verbatim>\<open>new_game\<close> builds it, with the given occupants.\<close>

definition board_with :: "(int \<Rightarrow> int \<Rightarrow> piece option) \<Rightarrow> board" where
  "board_with occ =
     map (\<lambda>row. map (\<lambda>col.
            \<lparr>playable = is_dark row col, location = (row, col), occupant = occ row col\<rparr>)
          [0..SIZE - 1]) [0..SIZE - 1]"

text \<open>BLACK men at (2, 1) and (2, 3), RED men at (3, 4) and (5, 6): the man at (2, 3) can
  capture the man at (3, 4), landing at (4, 5), from where a second capture is open.\<close>

definition capture_pieces :: "int \<Rightarrow> int \<Rightarrow> piece option" where
  "capture_pieces row col =
     (if (row, col) = (2, 1) \<or> (row, col) = (2, 3) then Some (Piece_init BLACK BLACK_DIRECTIONS)
      else if (row, col) = (3, 4) \<or> (row, col) = (5, 6) then Some (Piece_init RED RED_DIRECTIONS)
      else None)"

definition capture_board :: board where
  "capture_board = board_with capture_pieces"

definition capture_move :: move where
  "capture_move = \<lparr>current_loc = (2, 3), new_loc = (4, 5), capturing = Some (3, 4)\<rparr>"

definition capture_moves :: moves_dict where
  "capture_moves =
     [((2, 1), [\<lparr>current_loc = (2, 1), new_loc = (3, 2), capturing = None\<rparr>,
                \<lparr>current_loc = (2, 1), new_loc = (3, 0), capturing = None\<rparr>]),
      ((2, 3), [capture_move,
                \<lparr>current_loc = (2, 3), new_loc = (3, 2), capturing = None\<rparr>])]"

definition capture_turn :: turn where
  "capture_turn = \<lparr>player = BLACK, step = NEW_TURN, valid_moves = capture_moves,
      capture_required = True, possible_targets = [], final_move = None\<rparr>"

definition capture_game :: game where
  "capture_game = \<lparr>status = capture_board, black_score = 0, red_score = 0, winner = None,
      current_turn = Some capture_turn, black_possible_moves = capture_moves,
      red_possible_moves = []\<rparr>"

definition after_capture_pieces :: "int \<Rightarrow> int \<Rightarrow> piece option" where
  "after_capture_pieces row col =
     (if (row, col) = (2, 1) \<or> (row, col) = (4, 5) then Some (Piece_init BLACK BLACK_DIRECTIONS)
      else if (row, col) = (5, 6) then Some (Piece_init RED RED_DIRECTIONS)
      else None)"

text \<open>BLACK men on rows 5 and 6 and RED men on row 7, each on its twelve squares: no
  piece of either colour has a move.\<close>

definition blocked_pieces :: "int \<Rightarrow> int \<Rightarrow> piece option" where
  "blocked_pieces row col =
     (if is_dark row col then None
      else if row = 5 \<or> row = 6 then Some (Piece_init BLACK BLACK_DIRECTIONS)
      else if row = 7 then Some (Piece_init RED RED_DIRECTIONS)
      else None)"

definition blocked_game :: game where
  "blocked_game = blank_game\<lparr>status := board_with blocked_pieces\<rparr>"

text \<open>The move dictionaries and the first Turn of the start position.\<close>

definition start_black_moves :: moves_dict where
  "start_black_moves =
     [((2, 1), [\<lparr>current_loc = (2, 1), new_loc = (3, 2), capturing = None\<rparr>,
                \<lparr>current_loc = (2, 1), new_loc = (3, 0), capturing = None\<rparr>]),
      ((2, 3), [\<lparr>current_loc = (2, 3), new_loc = (3, 4), capturing = None\<rparr>,
                \<lparr>current_loc = (2, 3), new_loc = (3, 2), capturing = None\<rparr>]),
      ((2, 5), [\<lparr>current_loc = (2, 5), new_loc = (3, 6), capturing = None\<rparr>,
                \<lparr>current_loc = (2, 5), new_loc = (3, 4), capturing = None\<rparr>]),
      ((2, 7), [\<lparr>current_loc = (2, 7), new_loc = (3, 6), capturing = None\<rparr>])]"

definition start_red_moves :: moves_dict where
  "start_red_moves =
     [((5, 0), [\<lparr>current_loc = (5, 0), new_loc = (4, 1), capturing = None\<rparr>]),
      ((5, 2), [\<lparr>current_loc = (5, 2), new_loc = (4, 3), capturing = None\<rparr>,
                \<lparr>current_loc = (5, 2), new_loc = (4, 1), capturing = None\<rparr>]),
      ((5, 4), [\<lparr>current_loc = (5, 4), new_loc = (4, 5), capturing = None\<rparr>,
                \<lparr>current_loc = (5, 4), new_loc = (4, 3), capturing = None\<rparr>]),
      ((5, 6), [\<lparr>current_loc = (5, 6), new_loc = (4, 7), capturing = None\<rparr>,
                \<lparr>current_loc = (5, 6), new_loc = (4, 5), capturing = None\<rparr>])]"

definition start_turn :: turn where
  "start_turn = \<lparr>player = BLACK, step = NEW_TURN, valid_moves = start_black_moves,
      capture_required = False, possible_targets = [], final_move = None\<rparr>"

text \<open>The first Turn of the game after the man at (2, 1) has been selected.\<close>

definition selected_turn :: turn where
  "selected_turn = start_turn\<lparr>step := VALID_PIECE_SELECTED,
      possible_targets := [\<lparr>current_loc = (2, 1), new_loc = (3, 2), capturing = None\<rparr>,
                           \<lparr>current_loc = (2, 1), new_loc = (3, 0), capturing = None\<rparr>]\<rparr>"

section \<open>The Turn state machine\<close>

lemmas step_consts =
  NEW_TURN_def VALID_PIECE_SELECTED_def CHECK_MULTIPLE_JUMPS_def MOVE_COMPLETE_def

lemma Turn_init_capture_moves: "Turn_init BLACK capture_moves = Some capture_turn"
  by code_simp

lemma capture_turn_reachable: "turn_reachable capture_turn"
  by (rule turn_reachable.created [OF Turn_init_capture_moves])

lemma capture_turn_rejects: "is_valid_turn capture_turn (2, 1) = Some (False, capture_turn)"
  by code_simp

subsection \<open>A rejected selection\<close>

lemma is_valid_turn_False_same:
  "is_valid_turn t loc = Some (False, t') \<Longrightarrow> t' = t"
  by (auto simp: is_valid_turn_def bind_eq_Some_conv split: if_splits option.splits)

text \<open>
  Claim C9. Whenever \<^verbatim>\<open>is_valid_turn(location)\<close> returns False (so it has not raised),
  the Turn is exactly the Turn it was called on: step, valid_moves, capture_required,
  possible_targets, final_move and player are unchanged. Called on the current Turn of
  a game, as the click handler does, it leaves the whole game (board status, scores,
  winner, move dictionaries and Turn) unchanged.
\<close>

theorem rejected_selection_changes_nothing:
  "(is_valid_turn t loc = Some (False, t') \<longrightarrow> t' = t) \<and>
   (current_turn_is_valid_turn g loc = Some (False, g') \<longrightarrow> g' = g)"
  by (auto simp: current_turn_is_valid_turn_def bind_eq_Some_conv
           dest!: is_valid_turn_False_same)

theorem rejected_selection_changes_nothing_witness:
  "is_valid_turn capture_turn (2, 1) = Some (False, capture_turn) \<and>
   current_turn_is_valid_turn (blank_game\<lparr>current_turn := Some capture_turn\<rparr>) (2, 1) =
     Some (False, blank_game\<lparr>current_turn := Some capture_turn\<rparr>)"
proof -
  note a = capture_turn_rejects
  have "\<exists>g'. current_turn_is_valid_turn (blank_game\<lparr>current_turn := Some capture_turn\<rparr>) (2, 1)
          = Some (False, g')"
    by (simp add: current_turn_is_valid_turn_def a)
  then obtain g' where
    b: "current_turn_is_valid_turn (blank_game\<lparr>current_turn := Some capture_turn\<rparr>) (2, 1)
          = Some (False, g')" ..
  from rejected_selection_changes_nothing
         [of capture_turn "(2, 1)" capture_turn
             "blank_game\<lparr>current_turn := Some capture_turn\<rparr>" g'] b
  have "g' = blank_game\<lparr>current_turn := Some capture_turn\<rparr>" by blast
  with a b show ?thesis by simp
qed

subsection \<open>The invariant of reachable Turn objects\<close>

lemma turn_inv_Turn_init: "Turn_init p vm = Some t \<Longrightarrow> turn_inv t"
  by (auto simp: Turn_init_def turn_inv_def bind_eq_Some_conv is_capture_required_def Let_def)

lemma turn_inv_finish_initial_selection:
  "turn_inv t \<Longrightarrow> step t = NEW_TURN \<Longrightarrow> finish_initial_selection t loc = Some t' \<Longrightarrow> turn_inv t'"
  by (auto simp: finish_initial_selection_def turn_inv_def bind_eq_Some_conv
        is_capture_required_def step_consts)

lemma turn_inv_finish_piece_move: "turn_inv t \<Longrightarrow> turn_inv (finish_piece_move t m)"
  by (auto simp: finish_piece_move_def turn_inv_def is_capture_required_def step_consts)

lemma turn_inv_is_valid_turn:
  assumes "turn_inv t" "is_valid_turn t loc = Some (b, t')"
  shows "turn_inv t'"
  using assms
  by (auto simp: is_valid_turn_def bind_eq_Some_conv
           split: if_splits option.splits
           intro: turn_inv_finish_piece_move turn_inv_finish_initial_selection)

lemma turn_inv_choose_ai_cell:
  assumes "turn_inv t" "choose_ai_cell t rnd = Some (loc, t')"
  shows "turn_inv t'"
  using assms
  by (auto simp: choose_ai_cell_def bind_eq_Some_conv
           split: if_splits option.splits list.splits
           intro: turn_inv_finish_piece_move turn_inv_finish_initial_selection)

lemma turn_inv_complete_turn: "turn_inv t \<Longrightarrow> turn_inv (complete_turn t)"
  by (auto simp: complete_turn_def turn_inv_def is_capture_required_def step_consts)

lemma turn_inv_extended:
  "turn_inv t \<Longrightarrow> final_move t = Some m \<Longrightarrow> turn_inv (extended t options)"
  by (auto simp: extended_def turn_inv_def is_capture_required_def step_consts)

lemma turn_reachable_inv: "turn_reachable t \<Longrightarrow> turn_inv t"
  by (induction rule: turn_reachable.induct)
     (auto intro: turn_inv_Turn_init turn_inv_is_valid_turn turn_inv_choose_ai_cell
        turn_inv_complete_turn turn_inv_extended)

subsection \<open>Forced capture at the start of a turn\<close>

lemma forced_capture_aux:
  assumes inv: "turn_inv t" and cr: "capture_required t" and st: "step t = NEW_TURN"
  shows "(is_valid_turn t loc = Some (True, t') \<longrightarrow>
            loc \<in> fst ` set (valid_moves t) \<and>
            (\<exists>m ms. map_of (valid_moves t) loc = Some (m # ms) \<and> is_capture m)) \<and>
         (\<forall>m ms. map_of (valid_moves t) loc = Some (m # ms) \<and> \<not> is_capture m \<longrightarrow>
            is_valid_turn t loc = Some (False, t))"
proof -
  from inv cr have icr: "is_capture_required t = Some True"
    by (simp add: turn_inv_def)
  from inv st have pt: "possible_targets t = []"
    by (simp add: turn_inv_def)
  have no_target: "find_clicked_target t loc = None"
    by (simp add: find_clicked_target_def pt)
  have accept: "loc \<in> fst ` set (valid_moves t) \<and>
      (\<exists>m ms. map_of (valid_moves t) loc = Some (m # ms) \<and> is_capture m)"
    if "is_valid_turn t loc = Some (True, t')"
    using that st icr no_target
    by (auto simp: is_valid_turn_def playable_cell_selected_def allowed_start_piece_def
          bind_eq_Some_conv split: if_splits option.splits list.splits)
  have reject: "is_valid_turn t loc = Some (False, t)"
    if "map_of (valid_moves t) loc = Some (m # ms)" "\<not> is_capture m" for m ms
  proof -
    from that(1) have "loc \<in> fst ` set (valid_moves t)"
      by (metis map_of_SomeD fst_conv image_eqI)
    then show ?thesis
      using that st icr no_target
      by (simp add: is_valid_turn_def playable_cell_selected_def allowed_start_piece_def)
  qed
  from accept reject show ?thesis by blast
qed

text \<open>
  Claim C1. For every Turn the program can build whose capture_required flag is true and
  whose step is NEW_TURN: \<^verbatim>\<open>is_valid_turn(location)\<close> returns True only if the location
  is a key of valid_moves and the first Move of its list is a capture; and for every
  location whose list starts with a Move that is not a capture it returns False (leaving
  the Turn as it was).
\<close>

theorem forced_capture_on_new_turn:
  assumes "turn_reachable t" and "capture_required t" and "step t = NEW_TURN"
  shows "(is_valid_turn t loc = Some (True, t') \<longrightarrow>
            loc \<in> fst ` set (valid_moves t) \<and>
            (\<exists>m ms. map_of (valid_moves t) loc = Some (m # ms) \<and> is_capture m)) \<and>
         (\<forall>m ms. map_of (valid_moves t) loc = Some (m # ms) \<and> \<not> is_capture m \<longrightarrow>
            is_valid_turn t loc = Some (False, t))"
  using forced_capture_aux [OF turn_reachable_inv [OF assms(1)] assms(2,3)] .

theorem forced_capture_on_new_turn_witness:
  "turn_reachable capture_turn \<and> capture_required capture_turn \<and>
   step capture_turn = NEW_TURN \<and>
   map_of (valid_moves capture_turn) (2, 1) =
     Some [\<lparr>current_loc = (2, 1), new_loc = (3, 2), capturing = None\<rparr>,
           \<lparr>current_loc = (2, 1), new_loc = (3, 0), capturing = None\<rparr>] \<and>
   is_valid_turn capture_turn (2, 1) = Some (False, capture_turn)"
proof -
  have c: "capture_required capture_turn" and s: "step capture_turn = NEW_TURN"
    by (simp_all add: capture_turn_def)
  have m: "map_of (valid_moves capture_turn) (2, 1) =
     Some [\<lparr>current_loc = (2, 1), new_loc = (3, 2), capturing = None\<rparr>,
           \<lparr>current_loc = (2, 1), new_loc = (3, 0), capturing = None\<rparr>]"
    by (simp add: capture_turn_def capture_moves_def)
  have n: "\<not> is_capture \<lparr>current_loc = (2, 1), new_loc = (3, 2), capturing = None\<rparr>"
    by (simp add: is_capture_def)
  from forced_capture_on_new_turn [OF capture_turn_reachable c s, of "(2, 1)"] m n
  have "is_valid_turn capture_turn (2, 1) = Some (False, capture_turn)" by blast
  with capture_turn_reachable c s m show ?thesis by blast
qed

section \<open>The move generator\<close>

subsection \<open>Indexing\<close>

lemma norm_index_less: "norm_index n i = Some k \<Longrightarrow> k < n"
  by (auto simp: norm_index_def split: if_splits)

lemma cell_pos_in_grid:
  "cell_pos st loc = Some p \<Longrightarrow> fst p < length st \<and> snd p < length (st ! fst p)"
  by (auto simp: cell_pos_def bind_eq_Some_conv dest: norm_index_less)

lemma cell_pos_nat:
  "r < length st \<Longrightarrow> c < length (st ! r) \<Longrightarrow> cell_pos st (int r, int c) = Some (r, c)"
  by (simp add: cell_pos_def norm_index_def)

lemma cell_pos_board_ok:
  assumes "board_ok st" "is_valid_cell (fst l) (snd l)"
  shows "cell_pos st l = Some (nat (fst l), nat (snd l))"
proof -
  from assms(2) have b: "0 \<le> fst l" "fst l < 8" "0 \<le> snd l" "snd l < 8"
    by (simp_all add: is_valid_cell_def SIZE_def)
  from assms(1) b have r: "norm_index (length st) (fst l) = Some (nat (fst l))"
    by (simp add: board_ok_def norm_index_def)
  from assms(1) b have "length (st ! nat (fst l)) = 8"
    by (simp add: board_ok_def)
  with b have "norm_index (length (st ! nat (fst l))) (snd l) = Some (nat (snd l))"
    by (simp add: norm_index_def)
  with r show ?thesis by (simp add: cell_pos_def)
qed

lemma contains_piece_occupied:
  "contains_piece c col \<Longrightarrow> \<exists>p. occupant c = Some p \<and> color p = col"
  by (auto simp: contains_piece_def is_empty_def split: if_splits option.splits)

lemma all_cells_containing_color_mem:
  assumes "l \<in> set (all_cells_containing_color st piece_color)"
  shows "\<exists>r c. l = (int r, int c) \<and> r < length st \<and> c < length (st ! r) \<and>
           contains_piece (cell_at st (r, c)) piece_color"
  using assms by (auto simp: all_cells_containing_color_def)

subsection \<open>What the loops collect\<close>

lemma create_move_sound:
  assumes "create_move st start next_cell direction piece_color = Some (Some m)"
  shows "current_loc m = start \<and>
         is_valid_cell (fst (new_loc m)) (snd (new_loc m)) \<and>
         (\<exists>c. get_cell st (new_loc m) = Some c \<and> is_empty c) \<and>
         (\<forall>r. capturing m = Some r \<longrightarrow>
            fst r < length st \<and> snd r < length (st ! fst r) \<and>
            (\<exists>p. occupant (cell_at st r) = Some p \<and> is_enemy p piece_color))"
  using assms
  by (auto simp: create_move_def bind_eq_Some_conv get_cell_def Let_def
           split: if_splits dest: cell_pos_in_grid)

lemma moves_loop_set:
  "moves_loop st c piece_color ds acc = Some ms \<Longrightarrow> m \<in> set ms \<Longrightarrow>
     m \<in> set acc \<or>
     (\<exists>d \<in> set ds. create_move st (location c)
        (get_next_cell_in_direction (location c) d) d piece_color = Some (Some m))"
proof (induction ds arbitrary: acc)
  case Nil
  then show ?case by simp
next
  case (Cons d ds)
  from Cons.prems(1) obtain mv where
    mv: "create_move st (location c) (get_next_cell_in_direction (location c) d) d piece_color
           = Some mv"
    and rest: "moves_loop st c piece_color ds
        (case mv of None \<Rightarrow> acc | Some m \<Rightarrow> if is_capture m then m # acc else acc @ [m])
          = Some ms"
    by (auto simp: bind_eq_Some_conv)
  from Cons.IH [OF rest Cons.prems(2)] mv show ?case
    by (auto split: option.splits if_splits)
qed

lemma get_moves_for_piece_set:
  assumes "get_moves_for_piece st loc piece_color = Some ms" "m \<in> set ms"
  shows "\<exists>c d. get_cell st loc = Some c \<and>
           create_move st (location c) (get_next_cell_in_direction (location c) d) d piece_color
             = Some (Some m)"
  using assms
  by (auto simp: get_moves_for_piece_def bind_eq_Some_conv dest!: moves_loop_set)

lemma set_AList_update: "set (AList.update k v al) \<subseteq> insert (k, v) (set al)"
  by (induction al) auto

lemma valid_moves_loop_entries:
  "valid_moves_loop st piece_color locs pm = Some vm \<Longrightarrow> (k, ms) \<in> set vm \<Longrightarrow>
     (k, ms) \<in> set pm \<or>
     (k \<in> set locs \<and> ms \<noteq> [] \<and> get_moves_for_piece st k piece_color = Some ms)"
proof (induction locs arbitrary: pm)
  case Nil
  then show ?case by simp
next
  case (Cons loc locs)
  from Cons.prems(1) obtain moves where
    mv: "get_moves_for_piece st loc piece_color = Some moves"
    and rest: "valid_moves_loop st piece_color locs
        (if length moves > 0 then AList.update loc moves pm else pm) = Some vm"
    by (auto simp: bind_eq_Some_conv)
  from Cons.IH [OF rest Cons.prems(2)] mv show ?case
    using set_AList_update [of loc moves pm]
    by (auto split: if_splits)
qed

lemma valid_moves_for_color_entries:
  assumes "valid_moves_for_color st piece_color = Some vm" "(k, ms) \<in> set vm"
  shows "k \<in> set (all_cells_containing_color st piece_color) \<and> ms \<noteq> [] \<and>
         get_moves_for_piece st k piece_color = Some ms"
  using valid_moves_loop_entries [OF assms [unfolded valid_moves_for_color_def]] by simp

subsection \<open>The generator returns on every board of the game\<close>

lemma create_move_total:
  assumes "board_ok st"
  shows "\<exists>r. create_move st start next_cell direction piece_color = Some r"
proof (cases "is_valid_cell (fst next_cell) (snd next_cell)")
  case False
  then show ?thesis by (simp add: create_move_def)
next
  case True
  note p = cell_pos_board_ok [OF assms True]
  show ?thesis
  proof (cases "is_valid_cell (fst (get_next_cell_in_direction next_cell direction))
                  (snd (get_next_cell_in_direction next_cell direction))")
    case False
    with True p show ?thesis
      by (auto simp: create_move_def Let_def is_empty_def)
  next
    case v: True
    from cell_pos_board_ok [OF assms v] True p show ?thesis
      by (auto simp: create_move_def Let_def is_empty_def get_cell_def)
  qed
qed

lemma moves_loop_total:
  "board_ok st \<Longrightarrow> \<exists>ms. moves_loop st c piece_color ds acc = Some ms"
proof (induction ds arbitrary: acc)
  case Nil
  then show ?case by simp
next
  case (Cons d ds)
  from create_move_total [OF Cons.prems] obtain r where
    "create_move st (location c) (get_next_cell_in_direction (location c) d) d piece_color
       = Some r"
    by blast
  with Cons.IH [OF Cons.prems] show ?case by simp
qed

lemma get_moves_for_piece_total:
  assumes "board_ok st" "get_cell st loc = Some c" "occupant c \<noteq> None"
  shows "\<exists>ms. get_moves_for_piece st loc piece_color = Some ms"
  using assms moves_loop_total [OF assms(1)]
  by (auto simp: get_moves_for_piece_def)

lemma valid_moves_loop_total:
  "board_ok st \<Longrightarrow> \<forall>l \<in> set locs. \<exists>c. get_cell st l = Some c \<and> occupant c \<noteq> None \<Longrightarrow>
     \<exists>vm. valid_moves_loop st piece_color locs pm = Some vm"
proof (induction locs arbitrary: pm)
  case Nil
  then show ?case by simp
next
  case (Cons l locs)
  from Cons.prems(2) obtain c where "get_cell st l = Some c" "occupant c \<noteq> None" by auto
  from get_moves_for_piece_total [OF Cons.prems(1) this] obtain ms where
    "get_moves_for_piece st l piece_color = Some ms" by blast
  with Cons.IH [OF Cons.prems(1)] Cons.prems(2) show ?case by simp
qed

lemma valid_moves_for_color_total:
  assumes "board_ok st"
  shows "\<exists>vm. valid_moves_for_color st piece_color = Some vm"
  unfolding valid_moves_for_color_def
proof (rule valid_moves_loop_total [OF assms], rule ballI)
  fix l assume "l \<in> set (all_cells_containing_color st piece_color)"
  from all_cells_containing_color_mem [OF this] obtain r c where
    l: "l = (int r, int c)" "r < length st" "c < length (st ! r)"
       "contains_piece (cell_at st (r, c)) piece_color" by blast
  from contains_piece_occupied [OF l(4)] cell_pos_nat [OF l(2,3)] l(1)
  show "\<exists>c. get_cell st l = Some c \<and> occupant c \<noteq> None"
    by (auto simp: get_cell_def)
qed

subsection \<open>Concrete runs of the generator\<close>

lemma capture_board_ok: "board_ok capture_board"
  unfolding board_ok_def by code_simp

lemma capture_board_locations: "locations_ok capture_board"
  unfolding locations_ok_def by code_simp

lemma capture_board_black_moves: "valid_moves_for_color capture_board BLACK = Some capture_moves"
  by code_simp

lemma capture_board_piece_moves:
  "get_moves_for_piece capture_board (2, 3) BLACK =
     Some [capture_move, \<lparr>current_loc = (2, 3), new_loc = (3, 2), capturing = None\<rparr>]"
  by code_simp

subsection \<open>Legal destinations and captured cells\<close>

text \<open>
  Claim C3. For every board and colour, every Move in every list of the dictionary that
  \<^verbatim>\<open>valid_moves_for_color\<close> returns has a destination on the 8x8 board whose cell is
  empty, and the cell a capturing Move refers to is a cell of the grid that holds a
  piece which is an enemy of the moving colour.
\<close>

theorem generated_moves_are_legal:
  assumes "valid_moves_for_color st piece_color = Some vm"
    and "(loc, ms) \<in> set vm" and "m \<in> set ms"
  shows "is_valid_cell (fst (new_loc m)) (snd (new_loc m)) \<and>
         (\<exists>c. get_cell st (new_loc m) = Some c \<and> is_empty c) \<and>
         (\<forall>r. capturing m = Some r \<longrightarrow>
            fst r < length st \<and> snd r < length (st ! fst r) \<and>
            (\<exists>p. occupant (cell_at st r) = Some p \<and> is_enemy p piece_color))"
proof -
  from valid_moves_for_color_entries [OF assms(1,2)]
  have "get_moves_for_piece st loc piece_color = Some ms" by simp
  from get_moves_for_piece_set [OF this assms(3)] obtain c :: cell and d where
    "create_move st (location c) (get_next_cell_in_direction (location c) d) d piece_color
       = Some (Some m)" by blast
  from create_move_sound [OF this] show ?thesis by blast
qed

theorem generated_moves_are_legal_witness:
  "valid_moves_for_color capture_board BLACK = Some capture_moves \<and>
   ((2, 3), [capture_move, \<lparr>current_loc = (2, 3), new_loc = (3, 2), capturing = None\<rparr>])
      \<in> set capture_moves \<and>
   is_valid_cell (fst (new_loc capture_move)) (snd (new_loc capture_move)) \<and>
   (\<exists>c. get_cell capture_board (new_loc capture_move) = Some c \<and> is_empty c) \<and>
   (\<exists>p. occupant (cell_at capture_board (3, 4)) = Some p \<and> is_enemy p BLACK)"
proof -
  have e: "((2, 3), [capture_move, \<lparr>current_loc = (2, 3), new_loc = (3, 2), capturing = None\<rparr>])
      \<in> set capture_moves"
    by (simp add: capture_moves_def)
  have m: "capture_move
      \<in> set [capture_move, \<lparr>current_loc = (2, 3), new_loc = (3, 2), capturing = None\<rparr>]"
    by simp
  have c: "capturing capture_move = Some (3, 4)"
    by (simp add: capture_move_def)
  from generated_moves_are_legal [OF capture_board_black_moves e m] c
  have "is_valid_cell (fst (new_loc capture_move)) (snd (new_loc capture_move)) \<and>
        (\<exists>c. get_cell capture_board (new_loc capture_move) = Some c \<and> is_empty c) \<and>
        (\<exists>p. occupant (cell_at capture_board (3, 4)) = Some p \<and> is_enemy p BLACK)"
    by blast
  with capture_board_black_moves e show ?thesis by blast
qed

subsection \<open>Captures first\<close>

lemma moves_loop_split:
  "moves_loop st c piece_color ds (cs @ ns) = Some ms \<Longrightarrow>
     \<forall>m \<in> set cs. is_capture m \<Longrightarrow> \<forall>m \<in> set ns. \<not> is_capture m \<Longrightarrow>
     \<exists>cs' ns'. ms = cs' @ ns' \<and> (\<forall>m \<in> set cs'. is_capture m) \<and>
        (\<forall>m \<in> set ns'. \<not> is_capture m)"
proof (induction ds arbitrary: cs ns)
  case Nil
  then show ?case by auto
next
  case (Cons d ds)
  from Cons.prems(1) obtain mv where
    rest: "moves_loop st c piece_color ds
        (case mv of None \<Rightarrow> cs @ ns
         | Some m \<Rightarrow> if is_capture m then m # (cs @ ns) else (cs @ ns) @ [m]) = Some ms"
    by (auto simp: bind_eq_Some_conv)
  show ?case
  proof (cases mv)
    case None
    with rest Cons.IH [of cs ns] Cons.prems(2,3) show ?thesis by simp
  next
    case (Some m)
    show ?thesis
    proof (cases "is_capture m")
      case True
      with Some rest have "moves_loop st c piece_color ds ((m # cs) @ ns) = Some ms" by simp
      from Cons.IH [OF this] True Cons.prems(2,3) show ?thesis by simp
    next
      case False
      with Some rest have "moves_loop st c piece_color ds (cs @ (ns @ [m])) = Some ms" by simp
      from Cons.IH [OF this] False Cons.prems(2,3) show ?thesis by simp
    qed
  qed
qed

lemma get_moves_for_piece_split:
  assumes "get_moves_for_piece st loc piece_color = Some ms"
  shows "\<exists>cs ns. ms = cs @ ns \<and> (\<forall>m \<in> set cs. is_capture m) \<and>
           (\<forall>m \<in> set ns. \<not> is_capture m)"
proof -
  from assms obtain c :: cell and occ :: piece where
    "moves_loop st c piece_color (piece_directions occ) ([] @ []) = Some ms"
    by (auto simp: get_moves_for_piece_def bind_eq_Some_conv)
  from moves_loop_split [OF this] show ?thesis by simp
qed

text \<open>
  Claim C2. For every board and every location for which \<^verbatim>\<open>get_moves_for_piece\<close>
  returns a list (it raises where the cell holds no piece), every capturing Move of the
  list stands before every Move of the list that is not a capture.
\<close>

theorem captures_come_first:
  assumes "get_moves_for_piece st loc piece_color = Some ms"
    and "i < length ms" and "j < length ms"
    and "is_capture (ms ! i)" and "\<not> is_capture (ms ! j)"
  shows "i < j"
proof -
  from get_moves_for_piece_split [OF assms(1)] obtain cs ns where
    ms: "ms = cs @ ns" and cs: "\<forall>m \<in> set cs. is_capture m"
    and ns: "\<forall>m \<in> set ns. \<not> is_capture m"
    by blast
  have "i < length cs"
  proof (rule ccontr)
    assume "\<not> i < length cs"
    with assms(2) ms have "ms ! i \<in> set ns" by (simp add: nth_append)
    with ns assms(4) show False by blast
  qed
  moreover have "\<not> j < length cs"
  proof
    assume "j < length cs"
    with ms have "ms ! j \<in> set cs" by (simp add: nth_append)
    with cs assms(5) show False by blast
  qed
  ultimately show ?thesis by simp
qed

theorem captures_come_first_witness:
  "get_moves_for_piece capture_board (2, 3) BLACK =
     Some [capture_move, \<lparr>current_loc = (2, 3), new_loc = (3, 2), capturing = None\<rparr>] \<and>
   is_capture ([capture_move, \<lparr>current_loc = (2, 3), new_loc = (3, 2), capturing = None\<rparr>] ! 0) \<and>
   \<not> is_capture
       ([capture_move, \<lparr>current_loc = (2, 3), new_loc = (3, 2), capturing = None\<rparr>] ! 1) \<and>
   (0 :: nat) < 1"
proof -
  let ?ms = "[capture_move, \<lparr>current_loc = (2, 3), new_loc = (3, 2), capturing = None\<rparr>]"
  have l: "0 < length ?ms" "1 < length ?ms" by simp_all
  have c: "is_capture (?ms ! 0)" by (simp add: is_capture_def capture_move_def)
  have n: "\<not> is_capture (?ms ! 1)" by (simp add: is_capture_def)
  from captures_come_first [OF capture_board_piece_moves l c n]
  have "(0 :: nat) < 1" .
  with capture_board_piece_moves c n show ?thesis by blast
qed

subsection \<open>Continuation of a capture\<close>

lemma valid_moves_entry_source:
  assumes ok: "locations_ok st"
    and vm: "valid_moves_for_color st piece_color = Some vm"
    and e: "(k, ms) \<in> set vm" and m: "m \<in> set ms"
  shows "current_loc m = k"
proof -
  from valid_moves_for_color_entries [OF vm e]
  have k: "k \<in> set (all_cells_containing_color st piece_color)"
    and g: "get_moves_for_piece st k piece_color = Some ms" by simp_all
  from all_cells_containing_color_mem [OF k] obtain r c where
    l: "k = (int r, int c)" "r < length st" "c < length (st ! r)" by blast
  from get_moves_for_piece_set [OF g m] obtain c' :: cell and d where
    c': "get_cell st k = Some c'"
    and cm: "create_move st (location c') (get_next_cell_in_direction (location c') d) d
               piece_color = Some (Some m)" by blast
  from c' l cell_pos_nat [OF l(2,3)] have "c' = cell_at st (r, c)"
    by (simp add: get_cell_def)
  with ok l have "location c' = k" by (simp add: locations_ok_def)
  with create_move_sound [OF cm] show ?thesis by simp
qed

text \<open>
  Claim C7. On every board of the game (the \<^verbatim>\<open>location\<close> of each Cell is its position
  in the grid) and for every cell and colour, every Move in the list that
  \<^verbatim>\<open>get_additional_jump\<close> returns is a capture whose \<^verbatim>\<open>current_loc\<close> is the location of
  the cell it was called with.
\<close>

theorem additional_jumps_are_captures_from_cell:
  assumes "locations_ok (status g)"
    and "get_additional_jump g start_cell piece_color = Some (caps, g')"
    and "m \<in> set caps"
  shows "is_capture m \<and> current_loc m = location start_cell"
proof -
  from assms(2) obtain moves where
    vm: "valid_moves_for_color (status g) piece_color = Some moves"
    and caps: "caps = (case map_of moves (location start_cell) of
                         None \<Rightarrow> [] | Some ms \<Rightarrow> takeWhile is_capture ms)"
    by (auto simp: get_additional_jump_def bind_eq_Some_conv Let_def split: if_splits)
  from caps assms(3) obtain ms where
    ms: "map_of moves (location start_cell) = Some ms"
    and tw: "m \<in> set (takeWhile is_capture ms)"
    by (auto split: option.splits)
  from tw have c: "is_capture m" and mem: "m \<in> set ms"
    by (auto dest: set_takeWhileD)
  from map_of_SomeD [OF ms] have "(location start_cell, ms) \<in> set moves" .
  from valid_moves_entry_source [OF assms(1) vm this mem] c show ?thesis by simp
qed

lemma capture_game_additional_jump:
  "get_additional_jump capture_game (cell_at capture_board (2, 3)) BLACK =
     Some ([capture_move], capture_game)"
  by code_simp

theorem additional_jumps_are_captures_from_cell_witness:
  "locations_ok (status capture_game) \<and>
   get_additional_jump capture_game (cell_at capture_board (2, 3)) BLACK =
     Some ([capture_move], capture_game) \<and>
   capture_move \<in> set [capture_move] \<and>
   is_capture capture_move \<and>
   current_loc capture_move = location (cell_at capture_board (2, 3))"
proof -
  have l: "locations_ok (status capture_game)"
    using capture_board_locations by (simp add: capture_game_def)
  have m: "capture_move \<in> set [capture_move]" by simp
  from additional_jumps_are_captures_from_cell [OF l capture_game_additional_jump m]
       l capture_game_additional_jump m
  show ?thesis by blast
qed

section \<open>Applying a move\<close>

lemma occupant_set_occupant_other:
  assumes "q \<noteq> p"
  shows "occupant (cell_at (set_occupant st p occ) q) = occupant (cell_at st q)"
proof (cases "fst q = fst p")
  case False
  then show ?thesis by (simp add: set_occupant_def cell_at_def)
next
  case True
  with assms have c: "snd q \<noteq> snd p" by (auto simp: prod_eq_iff)
  show ?thesis
  proof (cases "fst p < length st")
    case False
    then show ?thesis by (simp add: set_occupant_def cell_at_def list_update_beyond)
  next
    case l: True
    with True c show ?thesis by (simp add: set_occupant_def cell_at_def)
  qed
qed

lemma update_state_status:
  assumes "update_state g m = Some g'"
  shows "\<exists>new_pos old_pos st2.
     cell_pos (status g) (new_loc m) = Some new_pos \<and>
     cell_pos (status g) (current_loc m) = Some old_pos \<and>
     (st2 = set_occupant (status g) new_pos (occupant (cell_at (status g) old_pos)) \<or>
      (\<exists>k. st2 = set_occupant
              (set_occupant (status g) new_pos (occupant (cell_at (status g) old_pos)))
              new_pos k)) \<and>
     status g' = (case capturing m of
                    None \<Rightarrow> set_occupant st2 old_pos None
                  | Some r \<Rightarrow> set_occupant (set_occupant st2 old_pos None) r None)"
proof -
  from assms obtain new_pos old_pos st2 where
    n: "cell_pos (status g) (new_loc m) = Some new_pos"
    and ol: "cell_pos (status g) (current_loc m) = Some old_pos"
    and st2: "(if fst (new_loc m) = BLACK_KING_ROW \<and>
                 contains_piece (cell_at (set_occupant (status g) new_pos
                    (occupant (cell_at (status g) old_pos))) new_pos) BLACK
               \<or> fst (new_loc m) = RED_KING_ROW \<and>
                 contains_piece (cell_at (set_occupant (status g) new_pos
                    (occupant (cell_at (status g) old_pos))) new_pos) RED
             then do {
               p \<leftarrow> occupant (cell_at (set_occupant (status g) new_pos
                    (occupant (cell_at (status g) old_pos))) new_pos);
               Some (set_occupant (set_occupant (status g) new_pos
                    (occupant (cell_at (status g) old_pos))) new_pos (Some (make_king p)))
             }
             else Some (set_occupant (status g) new_pos
                    (occupant (cell_at (status g) old_pos)))) = Some st2"
    and rest: "(case capturing m of
       None \<Rightarrow> Some (g\<lparr>status := set_occupant st2 old_pos None\<rparr>)
     | Some captured \<Rightarrow> do {
         t \<leftarrow> current_turn g;
         let g1 = (if player t = BLACK
                   then g\<lparr>status := set_occupant st2 old_pos None,
                          black_score := black_score g + 1\<rparr>
                   else g\<lparr>status := set_occupant st2 old_pos None,
                          red_score := red_score g + 1\<rparr>);
         Some (g1\<lparr>status := set_occupant (set_occupant st2 old_pos None) captured None\<rparr>)
       }) = Some g'"
    unfolding update_state_def Let_def by (auto simp: bind_eq_Some_conv)
  from st2 have "st2 = set_occupant (status g) new_pos (occupant (cell_at (status g) old_pos)) \<or>
      (\<exists>k. st2 = set_occupant
              (set_occupant (status g) new_pos (occupant (cell_at (status g) old_pos)))
              new_pos k)"
    by (auto simp: bind_eq_Some_conv split: if_splits)
  moreover from rest have "status g' = (case capturing m of
                    None \<Rightarrow> set_occupant st2 old_pos None
                  | Some r \<Rightarrow> set_occupant (set_occupant st2 old_pos None) r None)"
    by (auto simp: bind_eq_Some_conv Let_def split: option.splits if_splits)
  ultimately show ?thesis using n ol by blast
qed

lemma update_state_status_frame:
  assumes "update_state g m = Some g'"
    and "Some q \<noteq> cell_pos (status g) (current_loc m)"
    and "Some q \<noteq> cell_pos (status g) (new_loc m)"
    and "Some q \<noteq> capturing m"
  shows "occupant (cell_at (status g') q) = occupant (cell_at (status g) q)"
proof -
  from update_state_status [OF assms(1)] obtain new_pos old_pos st2 where
    n: "cell_pos (status g) (new_loc m) = Some new_pos"
    and ol: "cell_pos (status g) (current_loc m) = Some old_pos"
    and st2: "st2 = set_occupant (status g) new_pos (occupant (cell_at (status g) old_pos)) \<or>
      (\<exists>k. st2 = set_occupant
              (set_occupant (status g) new_pos (occupant (cell_at (status g) old_pos)))
              new_pos k)"
    and st: "status g' = (case capturing m of
                    None \<Rightarrow> set_occupant st2 old_pos None
                  | Some r \<Rightarrow> set_occupant (set_occupant st2 old_pos None) r None)"
    by blast
  from assms(2,3) n ol have q: "q \<noteq> old_pos" "q \<noteq> new_pos" by auto
  from st2 q have a: "occupant (cell_at st2 q) = occupant (cell_at (status g) q)"
    by (auto simp: occupant_set_occupant_other)
  show ?thesis
  proof (cases "capturing m")
    case None
    with st a q show ?thesis by (simp add: occupant_set_occupant_other)
  next
    case (Some r)
    with assms(4) have "q \<noteq> r" by auto
    with Some st a q show ?thesis by (simp add: occupant_set_occupant_other)
  qed
qed

lemma update_state_scores:
  assumes "update_state g m = Some g'"
  shows "winner g' = winner g \<and>
     (if is_capture m
      then \<exists>t. current_turn g = Some t \<and>
             (player t = BLACK \<longrightarrow>
                black_score g' = black_score g + 1 \<and> red_score g' = red_score g) \<and>
             (player t = RED \<longrightarrow>
                red_score g' = red_score g + 1 \<and> black_score g' = black_score g)
      else black_score g' = black_score g \<and> red_score g' = red_score g)"
proof (cases "capturing m")
  case None
  with assms show ?thesis
    by (auto simp: update_state_def bind_eq_Some_conv Let_def is_capture_def)
next
  case (Some r)
  with assms obtain t where t: "current_turn g = Some t"
    by (auto simp: update_state_def bind_eq_Some_conv Let_def)
  show ?thesis
  proof (cases "player t")
    case BLACK
    with assms Some t show ?thesis
      by (auto simp: update_state_def bind_eq_Some_conv Let_def is_capture_def)
  next
    case RED
    with assms Some t show ?thesis
      by (auto simp: update_state_def bind_eq_Some_conv Let_def is_capture_def)
  qed
qed

text \<open>
  Claim C10. For every Move that \<^verbatim>\<open>update_state\<close> applies (it returns): every cell of
  the grid other than the source cell, the destination cell and, for a capture, the
  captured cell keeps its occupant; the winner is unchanged; and when the Move is a
  capture the score of the player of the current Turn grows by one and the other score is
  unchanged, while otherwise both scores are unchanged.
\<close>

theorem update_state_frame:
  assumes "update_state g m = Some g'"
  shows "(\<forall>q. Some q \<noteq> cell_pos (status g) (current_loc m) \<and>
              Some q \<noteq> cell_pos (status g) (new_loc m) \<and>
              Some q \<noteq> capturing m \<longrightarrow>
              occupant (cell_at (status g') q) = occupant (cell_at (status g) q)) \<and>
         winner g' = winner g \<and>
         (if is_capture m
          then \<exists>t. current_turn g = Some t \<and>
                 (player t = BLACK \<longrightarrow>
                    black_score g' = black_score g + 1 \<and> red_score g' = red_score g) \<and>
                 (player t = RED \<longrightarrow>
                    red_score g' = red_score g + 1 \<and> black_score g' = black_score g)
          else black_score g' = black_score g \<and> red_score g' = red_score g)"
  using update_state_status_frame [OF assms] update_state_scores [OF assms] by blast

lemma capture_game_update_state:
  "update_state capture_game capture_move =
     Some (capture_game\<lparr>status := board_with after_capture_pieces, black_score := 1\<rparr>)"
  by code_simp

theorem update_state_frame_witness:
  "update_state capture_game capture_move =
     Some (capture_game\<lparr>status := board_with after_capture_pieces, black_score := 1\<rparr>) \<and>
   occupant (cell_at (board_with after_capture_pieces) (2, 1)) =
     occupant (cell_at (status capture_game) (2, 1)) \<and>
   winner (capture_game\<lparr>status := board_with after_capture_pieces, black_score := 1\<rparr>) =
     winner capture_game \<and>
   black_score (capture_game\<lparr>status := board_with after_capture_pieces, black_score := 1\<rparr>) =
     black_score capture_game + 1 \<and>
   red_score (capture_game\<lparr>status := board_with after_capture_pieces, black_score := 1\<rparr>) =
     red_score capture_game"
proof -
  let ?g' = "capture_game\<lparr>status := board_with after_capture_pieces, black_score := 1\<rparr>"
  note f = update_state_frame [OF capture_game_update_state]
  have a: "Some (2, 1) \<noteq> cell_pos (status capture_game) (current_loc capture_move)"
    and b: "Some (2, 1) \<noteq> cell_pos (status capture_game) (new_loc capture_move)"
    and c: "Some (2, 1) \<noteq> capturing capture_move"
    by code_simp+
  have cap: "is_capture capture_move"
    by (simp add: is_capture_def capture_move_def)
  have t: "current_turn capture_game = Some capture_turn" "player capture_turn = BLACK"
    by (simp_all add: capture_game_def capture_turn_def)
  from f a b c have "occupant (cell_at (status ?g') (2, 1)) =
      occupant (cell_at (status capture_game) (2, 1))" by blast
  moreover from f have "winner ?g' = winner capture_game" by blast
  moreover from f cap t have "black_score ?g' = black_score capture_game + 1 \<and>
      red_score ?g' = red_score capture_game" by auto
  ultimately show ?thesis using capture_game_update_state by simp
qed

subsection \<open>The shape of the board is kept\<close>

lemma length_set_occupant [simp]: "length (set_occupant st p occ) = length st"
  by (simp add: set_occupant_def)

lemma length_row_set_occupant [simp]:
  "length (set_occupant st p occ ! r) = length (st ! r)"
  by (cases "fst p < length st")
     (auto simp: set_occupant_def nth_list_update list_update_beyond)

lemma location_set_occupant [simp]:
  "location (cell_at (set_occupant st p occ) q) = location (cell_at st q)"
proof (cases "fst p < length st")
  case False
  then show ?thesis by (simp add: set_occupant_def list_update_beyond)
next
  case True
  show ?thesis
  proof (cases "snd p < length (st ! fst p)")
    case False
    then show ?thesis by (simp add: set_occupant_def list_update_beyond list_update_same_conv)
  next
    case s: True
    with True show ?thesis
      by (cases p, cases q) (auto simp: set_occupant_def cell_at_def nth_list_update)
  qed
qed

lemma board_ok_set_occupant: "board_ok st \<Longrightarrow> board_ok (set_occupant st p occ)"
  by (simp add: board_ok_def)

lemma locations_ok_set_occupant: "locations_ok st \<Longrightarrow> locations_ok (set_occupant st p occ)"
  by (simp add: locations_ok_def)

lemma update_state_keeps_board:
  assumes "update_state g m = Some g'"
  shows "(board_ok (status g) \<longrightarrow> board_ok (status g')) \<and>
         (locations_ok (status g) \<longrightarrow> locations_ok (status g'))"
proof -
  from update_state_status [OF assms] obtain new_pos old_pos st2 where
    st2: "st2 = set_occupant (status g) new_pos (occupant (cell_at (status g) old_pos)) \<or>
      (\<exists>k. st2 = set_occupant
              (set_occupant (status g) new_pos (occupant (cell_at (status g) old_pos)))
              new_pos k)"
    and st: "status g' = (case capturing m of
                    None \<Rightarrow> set_occupant st2 old_pos None
                  | Some r \<Rightarrow> set_occupant (set_occupant st2 old_pos None) r None)"
    by blast
  from st2 have "(board_ok (status g) \<longrightarrow> board_ok st2) \<and>
      (locations_ok (status g) \<longrightarrow> locations_ok st2)"
    by (auto intro: board_ok_set_occupant locations_ok_set_occupant)
  with st show ?thesis
    by (auto split: option.splits intro: board_ok_set_occupant locations_ok_set_occupant)
qed

lemma start_status_ok: "board_ok start_status \<and> locations_ok start_status"
  unfolding board_ok_def locations_ok_def by code_simp

section \<open>The start position\<close>

lemma start_black: "valid_moves_for_color start_status BLACK = Some start_black_moves"
  by code_simp

lemma start_red: "valid_moves_for_color start_status RED = Some start_red_moves"
  by code_simp

lemma start_turn_init: "Turn_init BLACK start_black_moves = Some start_turn"
  by code_simp

lemma new_game_eq:
  "new_game g = Some (g\<lparr>status := start_status, black_possible_moves := start_black_moves,
       red_possible_moves := start_red_moves, current_turn := Some start_turn\<rparr>)"
proof -
  have "start_black_moves \<noteq> []" "start_red_moves \<noteq> []"
    by (simp_all add: start_black_moves_def start_red_moves_def)
  then show ?thesis
    by (simp add: new_game_def populate_valid_moves_def start_black start_red Let_def
          check_game_over_def start_turn_init)
qed

lemma start_colors:
  "\<forall>r < 8. \<forall>c < 8.
     (case occupant (cell_at start_status (r, c)) of
        None \<Rightarrow> True
      | Some p \<Rightarrow> (r \<le> 2 \<and> color p = BLACK) \<or> (5 \<le> r \<and> color p = RED))"
  by code_simp

text \<open>
  Claim C5, as the code has it. \<^verbatim>\<open>new_game\<close> returns; in the position it builds the
  occupied cells of rows 0 to 2 hold BLACK pieces, the occupied cells of rows 5 to 7 hold
  RED pieces, rows 3 and 4 are empty, and the current Turn is the Turn the constructor
  builds for BLACK from BLACK's legal moves on that board.
\<close>

theorem new_game_start_position:
  "\<exists>g' t. new_game g = Some g' \<and>
     (\<forall>r c p. r \<le> 2 \<and> c < 8 \<and> occupant (cell_at (status g') (r, c)) = Some p
        \<longrightarrow> color p = BLACK) \<and>
     (\<forall>r c p. 5 \<le> r \<and> r < 8 \<and> c < 8 \<and> occupant (cell_at (status g') (r, c)) = Some p
        \<longrightarrow> color p = RED) \<and>
     (\<forall>r c. 3 \<le> r \<and> r \<le> 4 \<and> c < 8 \<longrightarrow> occupant (cell_at (status g') (r, c)) = None) \<and>
     current_turn g' = Some t \<and> Turn_init BLACK (black_possible_moves g') = Some t \<and>
     player t = BLACK \<and>
     valid_moves_for_color (status g') BLACK = Some (valid_moves t)"
proof -
  let ?g = "g\<lparr>status := start_status, black_possible_moves := start_black_moves,
       red_possible_moves := start_red_moves, current_turn := Some start_turn\<rparr>"
  have c: "(case occupant (cell_at start_status (r, c)) of
        None \<Rightarrow> True
      | Some p \<Rightarrow> (r \<le> 2 \<and> color p = BLACK) \<or> (5 \<le> r \<and> color p = RED))"
    if "r < 8" "c < 8" for r c
    using start_colors that by blast
  have 1: "color p = BLACK"
    if "r \<le> 2" "c < 8" "occupant (cell_at start_status (r, c)) = Some p" for r c p
    using c [of r c] that by simp
  have 2: "color p = RED"
    if "5 \<le> r" "r < 8" "c < 8" "occupant (cell_at start_status (r, c)) = Some p" for r c p
    using c [of r c] that by simp
  have 3: "occupant (cell_at start_status (r, c)) = None"
    if "3 \<le> r" "r \<le> 4" "c < 8" for r c
    using c [of r c] that by (auto split: option.splits)
  have 4: "player start_turn = BLACK" "valid_moves start_turn = start_black_moves"
    by (simp_all add: start_turn_def)
  show ?thesis
  proof (rule exI [of _ ?g], rule exI [of _ start_turn], intro conjI)
    show "new_game g = Some ?g" by (rule new_game_eq)
    show "\<forall>r c p. r \<le> 2 \<and> c < 8 \<and> occupant (cell_at (status ?g) (r, c)) = Some p
        \<longrightarrow> color p = BLACK" using 1 by auto
    show "\<forall>r c p. 5 \<le> r \<and> r < 8 \<and> c < 8 \<and> occupant (cell_at (status ?g) (r, c)) = Some p
        \<longrightarrow> color p = RED" using 2 by auto
    show "\<forall>r c. 3 \<le> r \<and> r \<le> 4 \<and> c < 8 \<longrightarrow> occupant (cell_at (status ?g) (r, c)) = None"
      using 3 by auto
    show "current_turn ?g = Some start_turn" by simp
    show "Turn_init BLACK (black_possible_moves ?g) = Some start_turn"
      by (simp add: start_turn_init)
    show "player start_turn = BLACK" by (rule 4)
    show "valid_moves_for_color (status ?g) BLACK = Some (valid_moves start_turn)"
      by (simp add: start_black 4)
  qed
qed

text \<open>The position \<^verbatim>\<open>new_game\<close> builds has a BLACK piece, not a RED one, at row 0,
  column 1.\<close>

theorem new_game_row_0_is_black:
  "map_option (occupant_color_at (0, 1)) (new_game blank_game) = Some (Some BLACK)"
  by code_simp

theorem new_game_start_position_witness:
  "\<exists>g' t p. new_game blank_game = Some g' \<and>
     (0 :: nat) \<le> 2 \<and> (1 :: nat) < 8 \<and>
     occupant (cell_at (status g') (0, 1)) = Some p \<and> color p = BLACK \<and>
     current_turn g' = Some t \<and> player t = BLACK"
proof -
  from new_game_start_position [of blank_game] obtain g' t where
    g: "new_game blank_game = Some g'"
    and b: "\<forall>r c p. r \<le> 2 \<and> c < 8 \<and> occupant (cell_at (status g') (r, c)) = Some p
        \<longrightarrow> color p = BLACK"
    and t: "current_turn g' = Some t" "player t = BLACK"
    by blast
  from g have "status g' = start_status" by (auto simp: new_game_eq)
  moreover have "occupant (cell_at start_status (0, 1)) \<noteq> None" by code_simp
  ultimately obtain p where p: "occupant (cell_at (status g') (0, 1)) = Some p" by auto
  then have "(0 :: nat) \<le> 2 \<and> (1 :: nat) < 8 \<and>
      occupant (cell_at (status g') (0, 1)) = Some p" by simp
  with b have "color p = BLACK" by blast
  with g p t show ?thesis by auto
qed

text \<open>
  Claim C4 at the start position. In the game the constructor builds, the cell at row 0,
  column 1 has its \<^verbatim>\<open>playable\<close> flag false (\<^verbatim>\<open>is_dark(0, 1)\<close> is false) and holds a BLACK
  piece: \<^verbatim>\<open>get_start_state\<close> puts the pieces on exactly the cells whose flag is false.
\<close>

theorem start_position_occupies_unplayable_cell:
  "map_option (playable_at (0, 1)) Game_init = Some False \<and>
   map_option (occupant_color_at (0, 1)) Game_init = Some (Some BLACK)"
  by code_simp

section \<open>Game over\<close>

text \<open>On the blocked board neither colour has a move; \<^verbatim>\<open>populate_valid_moves\<close> leaves
  RED's dictionary empty and names RED, not BLACK, the winner.\<close>

theorem both_blocked_red_wins:
  "map_option red_possible_moves (populate_valid_moves blocked_game) = Some [] \<and>
   map_option black_possible_moves (populate_valid_moves blocked_game) = Some [] \<and>
   map_option winner (populate_valid_moves blocked_game) = Some (Some RED)"
  by code_simp

text \<open>
  Claim C6, as the code has it. After \<^verbatim>\<open>populate_valid_moves\<close> the two dictionaries are
  the ones \<^verbatim>\<open>valid_moves_for_color\<close> computes on the board; if BLACK's is empty the
  winner is RED; if BLACK's is not empty and RED's is empty the winner is BLACK; if
  neither is empty the winner is left as it was.
\<close>

theorem winner_after_populate_valid_moves:
  assumes "populate_valid_moves g = Some g'"
  shows "valid_moves_for_color (status g) BLACK = Some (black_possible_moves g') \<and>
         valid_moves_for_color (status g) RED = Some (red_possible_moves g') \<and>
         (black_possible_moves g' = [] \<longrightarrow> winner g' = Some RED) \<and>
         (black_possible_moves g' \<noteq> [] \<and> red_possible_moves g' = [] \<longrightarrow>
            winner g' = Some BLACK) \<and>
         (black_possible_moves g' \<noteq> [] \<and> red_possible_moves g' \<noteq> [] \<longrightarrow>
            winner g' = winner g)"
proof -
  from assms obtain b r where
    b: "valid_moves_for_color (status g) BLACK = Some b"
    and r: "valid_moves_for_color (status g) RED = Some r"
    and g': "g' = check_game_over (g\<lparr>black_possible_moves := b, red_possible_moves := r\<rparr>)"
    by (auto simp: populate_valid_moves_def bind_eq_Some_conv Let_def)
  from g' have "black_possible_moves g' = b" "red_possible_moves g' = r"
    by (simp_all add: check_game_over_def)
  with b r g' show ?thesis
    by (simp add: check_game_over_def)
qed

lemma populate_valid_moves_total:
  assumes "board_ok (status g)"
  shows "\<exists>g'. populate_valid_moves g = Some g'"
  using valid_moves_for_color_total [OF assms, of BLACK]
        valid_moves_for_color_total [OF assms, of RED]
  by (auto simp: populate_valid_moves_def Let_def)

theorem winner_after_populate_valid_moves_witness:
  "\<exists>g'. populate_valid_moves (blank_game\<lparr>status := start_status\<rparr>) = Some g' \<and>
     black_possible_moves g' \<noteq> [] \<and> red_possible_moves g' \<noteq> [] \<and>
     winner g' = winner (blank_game\<lparr>status := start_status\<rparr>)"
proof -
  let ?g = "blank_game\<lparr>status := start_status\<rparr>"
  have "board_ok (status ?g)" using start_status_ok by simp
  from populate_valid_moves_total [OF this] obtain g' where
    g': "populate_valid_moves ?g = Some g'" ..
  note w = winner_after_populate_valid_moves [OF g']
  from w start_black have b: "black_possible_moves g' = start_black_moves" by simp
  from w start_red have r: "red_possible_moves g' = start_red_moves" by simp
  have "start_black_moves \<noteq> []" "start_red_moves \<noteq> []"
    by (simp_all add: start_black_moves_def start_red_moves_def)
  with b r w have "winner g' = winner ?g" by simp
  with g' b r \<open>start_black_moves \<noteq> []\<close> \<open>start_red_moves \<noteq> []\<close> show ?thesis by auto
qed

section \<open>Completion of a turn\<close>

lemma finish_piece_move_complete:
  "step (finish_piece_move t m) = MOVE_COMPLETE \<longleftrightarrow> \<not> capture_required t"
  by (simp add: finish_piece_move_def step_consts)

lemma finish_initial_selection_step:
  "finish_initial_selection t l = Some t' \<Longrightarrow> step t' = step t + 1"
  by (auto simp: finish_initial_selection_def bind_eq_Some_conv)

lemma is_valid_turn_outcomes:
  assumes "is_valid_turn t loc = Some (b, t')"
  shows "(\<not> b \<and> t' = t) \<or>
         (b \<and> step t = NEW_TURN \<and> finish_initial_selection t loc = Some t') \<or>
         (b \<and> (\<exists>m. t' = finish_piece_move t m))"
  using assms
  by (auto simp: is_valid_turn_def bind_eq_Some_conv split: if_splits option.splits)

lemma choose_ai_cell_outcomes:
  assumes "choose_ai_cell t rnd = Some (loc, t')"
  shows "t' = t \<or>
         (step t = NEW_TURN \<and> (\<exists>l. finish_initial_selection t l = Some t')) \<or>
         (\<exists>m. t' = finish_piece_move t m)"
  using assms
  by (auto simp: choose_ai_cell_def bind_eq_Some_conv split: if_splits list.splits)

lemma complete_only_by_finish_piece_move:
  assumes "t' = t \<or>
         (step t = NEW_TURN \<and> (\<exists>l. finish_initial_selection t l = Some t')) \<or>
         (\<exists>m. t' = finish_piece_move t m)"
    and "step t \<noteq> MOVE_COMPLETE"
  shows "step t' = MOVE_COMPLETE \<longleftrightarrow>
           \<not> capture_required t \<and> (\<exists>m. t' = finish_piece_move t m)"
proof
  assume c: "step t' = MOVE_COMPLETE"
  from assms(1) show "\<not> capture_required t \<and> (\<exists>m. t' = finish_piece_move t m)"
  proof (elim disjE conjE exE)
    assume "t' = t"
    with c assms(2) show ?thesis by simp
  next
    fix l assume "step t = NEW_TURN" "finish_initial_selection t l = Some t'"
    with c finish_initial_selection_step [of t l t'] show ?thesis
      by (simp add: step_consts)
  next
    fix m assume "t' = finish_piece_move t m"
    with c finish_piece_move_complete [of t m] show ?thesis by blast
  qed
next
  assume "\<not> capture_required t \<and> (\<exists>m. t' = finish_piece_move t m)"
  then show "step t' = MOVE_COMPLETE"
    using finish_piece_move_complete by blast
qed

lemma is_valid_turn_complete:
  assumes "is_valid_turn t loc = Some (b, t')" "step t \<noteq> MOVE_COMPLETE"
  shows "step t' = MOVE_COMPLETE \<longleftrightarrow>
           \<not> capture_required t \<and> (\<exists>m. t' = finish_piece_move t m)"
  using is_valid_turn_outcomes [OF assms(1)]
  by (intro complete_only_by_finish_piece_move [OF _ assms(2)]) blast

lemma choose_ai_cell_complete:
  assumes "choose_ai_cell t rnd = Some (loc, t')" "step t \<noteq> MOVE_COMPLETE"
  shows "step t' = MOVE_COMPLETE \<longleftrightarrow>
           \<not> capture_required t \<and> (\<exists>m. t' = finish_piece_move t m)"
  by (rule complete_only_by_finish_piece_move [OF choose_ai_cell_outcomes [OF assms(1)] assms(2)])

lemma get_additional_jump_outcomes:
  assumes "get_additional_jump g c p = Some (caps, g')"
  shows "(caps = [] \<and> (\<exists>t. current_turn g = Some t \<and>
                            g' = g\<lparr>current_turn := Some (complete_turn t)\<rparr>)) \<or>
         (caps \<noteq> [] \<and> g' = g)"
  using assms
  by (auto simp: get_additional_jump_def bind_eq_Some_conv Let_def split: if_splits)

lemma get_additional_jump_step:
  assumes "get_additional_jump g c p = Some (caps, g')" "current_turn g = Some t"
    and "step t \<noteq> MOVE_COMPLETE"
  shows "\<exists>t'. current_turn g' = Some t' \<and> (step t' = MOVE_COMPLETE \<longleftrightarrow> caps = [])"
  using get_additional_jump_outcomes [OF assms(1)] assms(2,3)
  by (auto simp: complete_turn_def)

lemma takeWhile_captures:
  assumes "\<forall>m \<in> set cs. is_capture m" "\<forall>m \<in> set ns. \<not> is_capture m"
  shows "takeWhile is_capture (cs @ ns) = filter is_capture (cs @ ns)"
proof -
  from assms(2) have "takeWhile is_capture ns = []" by (cases ns) auto
  moreover from assms(2) have "filter is_capture ns = []" by (simp add: filter_empty_conv)
  moreover from assms(1) have "filter is_capture cs = cs" by (simp add: filter_id_conv)
  ultimately show ?thesis using assms(1) by (simp add: takeWhile_append2)
qed

lemma get_additional_jump_finds_all:
  assumes "get_additional_jump g c p = Some (caps, g')"
    and "valid_moves_for_color (status g) p = Some moves"
  shows "caps = (case map_of moves (location c) of
                   None \<Rightarrow> [] | Some ms \<Rightarrow> filter is_capture ms)"
proof (cases "map_of moves (location c)")
  case None
  with assms show ?thesis
    by (auto simp: get_additional_jump_def bind_eq_Some_conv Let_def split: if_splits)
next
  case (Some ms)
  from map_of_SomeD [OF Some] valid_moves_for_color_entries [OF assms(2)]
  have "get_moves_for_piece (status g) (location c) p = Some ms" by blast
  from get_moves_for_piece_split [OF this] takeWhile_captures
  have "takeWhile is_capture ms = filter is_capture ms" by blast
  with Some assms show ?thesis
    by (auto simp: get_additional_jump_def bind_eq_Some_conv Let_def split: if_splits)
qed

lemma update_state_current_turn:
  "update_state g m = Some g' \<Longrightarrow> current_turn g' = current_turn g"
  by (auto simp: update_state_def bind_eq_Some_conv Let_def split: option.splits if_splits)

text \<open>
  Claim C8. The step of a Turn that is not yet complete becomes MOVE_COMPLETE in exactly
  two ways. (1) \<^verbatim>\<open>finish_piece_move\<close> commits a move while capture_required is false:
  it sets MOVE_COMPLETE iff the flag is false, and a call of \<^verbatim>\<open>is_valid_turn\<close> or
  \<^verbatim>\<open>choose_ai_cell\<close> ends in MOVE_COMPLETE iff the flag is false and the call has
  committed a move through \<^verbatim>\<open>finish_piece_move\<close>. (2) \<^verbatim>\<open>get_additional_jump\<close> ends in
  MOVE_COMPLETE iff the list of further captures it returns is empty, and that list is
  empty iff the generator has no capturing Move from the cell. Everything else that
  touches the Turn leaves it short of MOVE_COMPLETE: the constructor starts at NEW_TURN,
  \<^verbatim>\<open>extend_turn\<close> does not change the step, \<^verbatim>\<open>update_state\<close> does not change the Turn.
\<close>

theorem move_complete_iff:
  "(step (finish_piece_move t m) = MOVE_COMPLETE \<longleftrightarrow> \<not> capture_required t) \<and>
   (is_valid_turn t loc = Some (b, t') \<and> step t \<noteq> MOVE_COMPLETE \<longrightarrow>
      (step t' = MOVE_COMPLETE \<longleftrightarrow>
         \<not> capture_required t \<and> (\<exists>m'. t' = finish_piece_move t m'))) \<and>
   (choose_ai_cell t rnd = Some (l, t'') \<and> step t \<noteq> MOVE_COMPLETE \<longrightarrow>
      (step t'' = MOVE_COMPLETE \<longleftrightarrow>
         \<not> capture_required t \<and> (\<exists>m'. t'' = finish_piece_move t m'))) \<and>
   (get_additional_jump g c p = Some (caps, g') \<and> current_turn g = Some t0 \<and>
    step t0 \<noteq> MOVE_COMPLETE \<longrightarrow>
      (\<exists>t1. current_turn g' = Some t1 \<and> (step t1 = MOVE_COMPLETE \<longleftrightarrow> caps = [])) \<and>
      (\<exists>moves. valid_moves_for_color (status g) p = Some moves \<and>
         (caps = [] \<longleftrightarrow>
            (\<forall>ms m'. map_of moves (location c) = Some ms \<and> m' \<in> set ms
               \<longrightarrow> \<not> is_capture m')))) \<and>
   (Turn_init pl vm = Some t2 \<longrightarrow> step t2 = NEW_TURN \<and> step t2 \<noteq> MOVE_COMPLETE) \<and>
   step (extended t options) = step t \<and>
   (update_state g mv = Some g2 \<longrightarrow> current_turn g2 = current_turn g)"
proof (intro conjI impI)
  show "step (finish_piece_move t m) = MOVE_COMPLETE \<longleftrightarrow> \<not> capture_required t"
    by (rule finish_piece_move_complete)
next
  assume "is_valid_turn t loc = Some (b, t') \<and> step t \<noteq> MOVE_COMPLETE"
  then show "step t' = MOVE_COMPLETE \<longleftrightarrow>
      \<not> capture_required t \<and> (\<exists>m'. t' = finish_piece_move t m')"
    using is_valid_turn_complete by blast
next
  assume "choose_ai_cell t rnd = Some (l, t'') \<and> step t \<noteq> MOVE_COMPLETE"
  then show "step t'' = MOVE_COMPLETE \<longleftrightarrow>
      \<not> capture_required t \<and> (\<exists>m'. t'' = finish_piece_move t m')"
    using choose_ai_cell_complete by blast
next
  assume a: "get_additional_jump g c p = Some (caps, g') \<and> current_turn g = Some t0 \<and>
    step t0 \<noteq> MOVE_COMPLETE"
  then show "\<exists>t1. current_turn g' = Some t1 \<and> (step t1 = MOVE_COMPLETE \<longleftrightarrow> caps = [])"
    using get_additional_jump_step by blast
  from a obtain moves where vm: "valid_moves_for_color (status g) p = Some moves"
    by (auto simp: get_additional_jump_def bind_eq_Some_conv)
  from a get_additional_jump_finds_all [OF _ vm]
  have "caps = (case map_of moves (location c) of
                   None \<Rightarrow> [] | Some ms \<Rightarrow> filter is_capture ms)" by blast
  then have "caps = [] \<longleftrightarrow>
      (\<forall>ms m'. map_of moves (location c) = Some ms \<and> m' \<in> set ms \<longrightarrow> \<not> is_capture m')"
    by (auto simp: filter_empty_conv split: option.splits)
  with vm show "\<exists>moves. valid_moves_for_color (status g) p = Some moves \<and>
         (caps = [] \<longleftrightarrow>
            (\<forall>ms m'. map_of moves (location c) = Some ms \<and> m' \<in> set ms
               \<longrightarrow> \<not> is_capture m'))" by blast
next
  assume "Turn_init pl vm = Some t2"
  then show "step t2 = NEW_TURN"
    by (auto simp: Turn_init_def bind_eq_Some_conv Let_def)
next
  assume "Turn_init pl vm = Some t2"
  then show "step t2 \<noteq> MOVE_COMPLETE"
    by (auto simp: Turn_init_def bind_eq_Some_conv Let_def step_consts)
next
  show "step (extended t options) = step t" by (simp add: extended_def)
next
  assume "update_state g mv = Some g2"
  then show "current_turn g2 = current_turn g" by (rule update_state_current_turn)
qed

lemma start_turn_select: "is_valid_turn start_turn (2, 1) = Some (True, selected_turn)"
  by code_simp

lemma selected_turn_move:
  "is_valid_turn selected_turn (3, 2) =
     Some (True, finish_piece_move selected_turn
                   \<lparr>current_loc = (2, 1), new_loc = (3, 2), capturing = None\<rparr>)"
  by code_simp

theorem move_complete_iff_witness:
  "is_valid_turn start_turn (2, 1) = Some (True, selected_turn) \<and>
   step start_turn \<noteq> MOVE_COMPLETE \<and> step selected_turn \<noteq> MOVE_COMPLETE \<and>
   \<not> capture_required selected_turn \<and>
   is_valid_turn selected_turn (3, 2) =
     Some (True, finish_piece_move selected_turn
                   \<lparr>current_loc = (2, 1), new_loc = (3, 2), capturing = None\<rparr>) \<and>
   step (finish_piece_move selected_turn
           \<lparr>current_loc = (2, 1), new_loc = (3, 2), capturing = None\<rparr>) = MOVE_COMPLETE"
proof -
  let ?m = "\<lparr>current_loc = (2, 1), new_loc = (3, 2), capturing = None\<rparr>"
  have s0: "step start_turn \<noteq> MOVE_COMPLETE"
    by (simp add: start_turn_def step_consts)
  have s1: "step selected_turn \<noteq> MOVE_COMPLETE"
    by (simp add: selected_turn_def step_consts)
  have cr: "\<not> capture_required selected_turn"
    by (simp add: selected_turn_def start_turn_def)
  from move_complete_iff [of selected_turn ?m "(3, 2)" True "finish_piece_move selected_turn ?m"]
       selected_turn_move s1 cr
  have "step (finish_piece_move selected_turn ?m) = MOVE_COMPLETE" by blast
  with start_turn_select selected_turn_move s0 s1 cr show ?thesis by blast
qed

section \<open>A selection does not raise on generated moves\<close>

text \<open>The lists in a dictionary of \<^verbatim>\<open>valid_moves_for_color\<close> are not empty, and on a
  Turn whose lists are not empty \<^verbatim>\<open>is_valid_turn\<close> returns for every clicked location.\<close>

lemma lookup_nonempty:
  assumes "\<forall>(k, ms) \<in> set vm. ms \<noteq> []" "k \<in> fst ` set vm"
  shows "\<exists>m ms. map_of vm k = Some (m # ms)"
proof -
  from assms(2) obtain ms where "map_of vm k = Some ms"
    by (metis domD dom_map_of_conv_image_fst)
  moreover from this assms(1) have "ms \<noteq> []" by (auto dest: map_of_SomeD)
  ultimately show ?thesis by (cases ms) auto
qed

lemma capture_required_loop_total:
  assumes "\<forall>(k, ms) \<in> set vm. ms \<noteq> []" "set ks \<subseteq> fst ` set vm"
  shows "\<exists>b. capture_required_loop vm ks = Some b"
  using assms(2)
proof (induction ks)
  case Nil
  then show ?case by auto
next
  case (Cons k ks)
  from Cons.prems lookup_nonempty [OF assms(1), of k] obtain m ms where
    "map_of vm k = Some (m # ms)" by auto
  with Cons show ?case by auto
qed

lemma is_capture_required_total:
  assumes "\<forall>(k, ms) \<in> set (valid_moves t). ms \<noteq> []"
  shows "\<exists>b. is_capture_required t = Some b"
  unfolding is_capture_required_def
  by (rule capture_required_loop_total [OF assms]) auto

lemma is_valid_turn_total:
  assumes "\<forall>(k, ms) \<in> set (valid_moves t). ms \<noteq> []"
  shows "\<exists>b t'. is_valid_turn t loc = Some (b, t')"
proof (cases "playable_cell_selected t loc")
  case False
  then show ?thesis by (auto simp: is_valid_turn_def)
next
  case True
  from is_capture_required_total [OF assms] obtain r where r: "is_capture_required t = Some r"
    by blast
  show ?thesis
  proof (cases "step t = NEW_TURN")
    case n: True
    with True have "loc \<in> fst ` set (valid_moves t)"
      by (simp add: playable_cell_selected_def)
    from lookup_nonempty [OF assms this] obtain m ms where
      l: "map_of (valid_moves t) loc = Some (m # ms)" by blast
    with True n r show ?thesis
      by (auto simp: is_valid_turn_def allowed_start_piece_def finish_initial_selection_def
               split: option.splits)
  next
    case False
    with True r show ?thesis
      by (auto simp: is_valid_turn_def split: option.splits)
  qed
qed

lemma valid_moves_for_color_nonempty:
  assumes "valid_moves_for_color st col = Some vm"
  shows "\<forall>(k, ms) \<in> set vm. ms \<noteq> []"
  using valid_moves_for_color_entries [OF assms] by auto

end
